theory Spec2Isabelle
  imports Main "HOL-Library.Word"
begin

section \<open>The configuration cache of the 3scale authorizer\<close>

text \<open>
  A shallow embedding of package \<open>cache\<close>: the \<open>ConfigCache\<close> store with its entry limit
  and time to live, the expiry policy, the bulk operations \<open>FlushExpired\<close> and
  \<open>Refresh\<close>, and the start guard of the refresh worker.

  What the Go code takes from outside the package is made explicit:
  \<^item> the package variable \<open>now\<close> (by default \<open>time.Now\<close>) is a clock that may answer
    differently at every call: an environment holds the sequence of its readings and
    the number of readings taken so far;
  \<^item> a refresh callback is a closure over state the caller owns: it is a function
    from that state (the \<open>world\<close>) to its two results and the new state;
  \<^item> the concurrent map iterates in an order the runtime chooses, so does a Go
    \<open>range\<close> over a map: each iteration takes the order as a list of keys.
  A callback does not reach into the cache it is stored in. Calls are modelled one at a
  time; the interleaving of concurrent callers is outside the model.
\<close>

subsection \<open>Time, errors, channels\<close>

text \<open>
  A \<open>time.Time\<close> is the number of nanoseconds since Go's zero time instant, a
  \<open>time.Duration\<close> a number of nanoseconds. \<open>Add\<close> is taken as exact addition (the
  library saturates only at the ends of its range).
\<close>

type_synonym time = int
type_synonym duration = int

definition IsZero :: "time \<Rightarrow> bool" where
  "IsZero t = (t = 0)"

definition Add :: "time \<Rightarrow> duration \<Rightarrow> time" where
  "Add t d = t + d"

definition After :: "time \<Rightarrow> time \<Rightarrow> bool" where
  "After t u = (u < t)"

datatype error = errors_New string

text \<open>A channel is known by an identifier; \<open>None\<close> is the nil channel.\<close>

type_synonym chan = "nat option"

subsection \<open>The environment: clock and callers' state\<close>

record 'w env =
  clock :: "nat \<Rightarrow> time"
  ticks :: nat
  world :: 'w

text \<open>\<open>now()\<close>: the next reading of the clock.\<close>

definition now :: "'w env \<Rightarrow> time \<times> 'w env" where
  "now e = (clock e (ticks e), e\<lparr>ticks := Suc (ticks e)\<rparr>)"

text \<open>
  In every run of the package \<open>now\<close> is \<open>time.Now\<close>: the variable is unexported and
  nothing assigns to it. The system clock reads a time of the present, which lies more than
  \<open>2^63\<close> nanoseconds (some 292 years) after the zero time, the first instant of the
  year 1; \<open>wall_clock c\<close> says so of every reading of the clock \<open>c\<close>. A
  \<open>time.Duration\<close> is an \<open>int64\<close>, which \<open>is_Duration\<close> says of a number of nanoseconds.
\<close>

definition wall_clock :: "(nat \<Rightarrow> time) \<Rightarrow> bool" where
  "wall_clock c = (\<forall>i. 2 ^ 63 < c i)"

definition is_Duration :: "duration \<Rightarrow> bool" where
  "is_Duration d = (- (2 ^ 63) \<le> d \<and> d < 2 ^ 63)"

subsection \<open>Values and the cache\<close>

text \<open>
  \<open>RefreshCb\<close> is \<open>func() (client.ProxyConfig, error)\<close>; the payload type
  \<open>client.ProxyConfig\<close> belongs to another module and is the type parameter \<open>'a\<close>.
\<close>

type_synonym ('a, 'w) RefreshCb = "'w \<Rightarrow> ('a \<times> error option) \<times> 'w"

record ('a, 'w) Value =
  Item :: 'a
  expires :: time
  refreshWith :: "('a, 'w) RefreshCb option"

record ('a, 'w) ConfigCache =
  cache :: "string \<rightharpoonup> ('a, 'w) Value"
  limit :: int
  refreshWorkerRunning :: "32 word"
  stopRefreshWorker :: chan
  ttl :: duration

text \<open>
  The zero value \<open>Value{}\<close>: the zero payload (written \<open>0\<close>), the zero time, no callback.
\<close>

definition Value_zero :: "('a::zero, 'w) Value" where
  "Value_zero = \<lparr>Item = 0, expires = 0, refreshWith = None\<rparr>"

definition DefaultCacheTTL :: duration where
  "DefaultCacheTTL = 5 * 60 * 1000000000"

definition DefaultCacheRefreshInterval :: duration where
  "DefaultCacheRefreshInterval = 3 * 60 * 1000000000"

definition DefaultCacheLimit :: int where
  "DefaultCacheLimit = - 1"

definition NewConfigCache :: "duration \<Rightarrow> int \<Rightarrow> ('a, 'w) ConfigCache" where
  "NewConfigCache t maxEntries =
     \<lparr>cache = Map.empty, limit = maxEntries, refreshWorkerRunning = 0,
      stopRefreshWorker = None, ttl = t\<rparr>"

definition NewDefaultConfigCache :: "('a, 'w) ConfigCache" where
  "NewDefaultConfigCache =
     \<lparr>cache = Map.empty, limit = DefaultCacheLimit, refreshWorkerRunning = 0,
      stopRefreshWorker = None, ttl = DefaultCacheTTL\<rparr>"

text \<open>\<open>Count()\<close> of the concurrent map: the number of keys.\<close>

definition Count :: "(string \<rightharpoonup> 'v) \<Rightarrow> int" where
  "Count m = int (card (dom m))"

definition Get :: "('a::zero, 'w) ConfigCache \<Rightarrow> string \<Rightarrow> ('a, 'w) Value \<times> bool" where
  "Get scp key =
     (case cache scp key of
        None \<Rightarrow> (Value_zero, False)
      | Some v \<Rightarrow> (v, True))"

definition getExpiryTime :: "('a, 'w) ConfigCache \<Rightarrow> 'w env \<Rightarrow> time \<times> 'w env" where
  "getExpiryTime scp e = (case now e of (t, e') \<Rightarrow> (Add t (ttl scp), e'))"

definition cache_full :: error where
  "cache_full = errors_New ''error - cache is full, cannot add more elements''"

text \<open>
  \<open>Set\<close> returns its error (\<open>None\<close> is nil), the cache and the environment after
  the call.
\<close>

definition Set ::
  "('a, 'w) ConfigCache \<Rightarrow> string \<Rightarrow> ('a, 'w) Value \<Rightarrow> 'w env
    \<Rightarrow> error option \<times> ('a, 'w) ConfigCache \<times> 'w env" where
  "Set scp key v e =
     (if limit scp < 0 \<or> Count (cache scp) < limit scp then
        (case (if IsZero (expires v)
               then (case getExpiryTime scp e of (t, e') \<Rightarrow> (v\<lparr>expires := t\<rparr>, e'))
               else (v, e)) of
           (v', e') \<Rightarrow> (None, scp\<lparr>cache := (cache scp)(key \<mapsto> v')\<rparr>, e'))
      else (Some cache_full, scp, e))"

definition Delete :: "('a, 'w) ConfigCache \<Rightarrow> string \<Rightarrow> ('a, 'w) ConfigCache" where
  "Delete scp key = scp\<lparr>cache := (cache scp)(key := None)\<rparr>"

definition SetExpiry :: "('a, 'w) Value \<Rightarrow> time \<Rightarrow> ('a, 'w) Value" where
  "SetExpiry v t = v\<lparr>expires := t\<rparr>"

definition SetRefreshCallback :: "('a, 'w) Value \<Rightarrow> ('a, 'w) RefreshCb option \<Rightarrow> ('a, 'w) Value" where
  "SetRefreshCallback v fn = v\<lparr>refreshWith := fn\<rparr>"

definition isExpired :: "('a, 'w) Value \<Rightarrow> 'w env \<Rightarrow> bool \<times> 'w env" where
  "isExpired v e = (case now e of (t, e') \<Rightarrow> (After t (expires v), e'))"

subsection \<open>Iteration orders\<close>

text \<open>
  \<open>IterCb\<close> of the concurrent map and a Go \<open>range\<close> over a map visit every entry once,
  in an order that is not specified. An iteration takes that order as a list of keys;
  \<open>iter_order m ks\<close> says that \<open>ks\<close> is such an order for the map \<open>m\<close>.
\<close>

definition iter_order :: "(string \<rightharpoonup> 'v) \<Rightarrow> string list \<Rightarrow> bool" where
  "iter_order m ks = (distinct ks \<and> set ks = dom m)"

text \<open>
  \<open>IterCb m ks fn s\<close> calls \<open>fn\<close> on every entry of \<open>m\<close> in the order \<open>ks\<close>; what the
  closure \<open>fn\<close> captures and changes is the state \<open>s\<close> it passes on. A key of \<open>ks\<close> that
  \<open>m\<close> does not hold is passed over; an iteration order has no such key.
\<close>

fun IterCb ::
  "(string \<rightharpoonup> 'v) \<Rightarrow> string list \<Rightarrow> (string \<Rightarrow> 'v \<Rightarrow> 's \<Rightarrow> 's) \<Rightarrow> 's \<Rightarrow> 's" where
  "IterCb m [] fn s = s"
| "IterCb m (key # ks) fn s =
     (case m key of
        None \<Rightarrow> IterCb m ks fn s
      | Some v \<Rightarrow> IterCb m ks fn (fn key v s))"

subsection \<open>FlushExpired\<close>

text \<open>
  The closure given to \<open>IterCb\<close> asks \<open>isExpired\<close> for the entry it visits, and
  \<open>isExpired\<close> reads the clock each time. It appends to \<open>forDeletion\<close>.
\<close>

fun FlushExpired_cb ::
  "string \<Rightarrow> ('a, 'w) Value \<Rightarrow> string list \<times> 'w env \<Rightarrow> string list \<times> 'w env" where
  "FlushExpired_cb key item (forDeletion, e) =
     (case isExpired item e of
        (expired, e') \<Rightarrow> (if expired then forDeletion @ [key] else forDeletion, e'))"

fun Delete_all :: "('a, 'w) ConfigCache \<Rightarrow> string list \<Rightarrow> ('a, 'w) ConfigCache" where
  "Delete_all scp [] = scp"
| "Delete_all scp (key # ks) = Delete_all (Delete scp key) ks"

definition FlushExpired ::
  "('a, 'w) ConfigCache \<Rightarrow> string list \<Rightarrow> 'w env \<Rightarrow> ('a, 'w) ConfigCache \<times> 'w env" where
  "FlushExpired scp ks e =
     (case IterCb (cache scp) ks FlushExpired_cb ([], e) of
        (forDeletion, e') \<Rightarrow> (Delete_all scp forDeletion, e'))"

subsection \<open>Refresh\<close>

text \<open>
  The closure of the first loop runs the callback of the entry it visits, if there is
  one; when the callback returns no error it puts the replacement into \<open>refreshItems\<close>.
\<close>

fun Refresh_cb ::
  "('a, 'w) ConfigCache \<Rightarrow> string \<Rightarrow> ('a, 'w) Value
    \<Rightarrow> (string \<rightharpoonup> ('a, 'w) Value) \<times> 'w env \<Rightarrow> (string \<rightharpoonup> ('a, 'w) Value) \<times> 'w env" where
  "Refresh_cb scp key item (refreshItems, e) =
     (case refreshWith item of
        None \<Rightarrow> (refreshItems, e)
      | Some cb \<Rightarrow>
          (case cb (world e) of
             ((resp, err), w') \<Rightarrow>
               (case err of
                  Some _ \<Rightarrow> (refreshItems, e\<lparr>world := w'\<rparr>)
                | None \<Rightarrow>
                    (case getExpiryTime scp (e\<lparr>world := w'\<rparr>) of
                       (t, e') \<Rightarrow>
                         (refreshItems(key \<mapsto>
                            \<lparr>Item = resp, expires = t, refreshWith = refreshWith item\<rparr>),
                          e')))))"

text \<open>
  The body of the second loop: \<open>scp.Set(k, v)\<close>, whose error is dropped.
\<close>

fun Refresh_set ::
  "string \<Rightarrow> ('a, 'w) Value \<Rightarrow> ('a, 'w) ConfigCache \<times> 'w env \<Rightarrow> ('a, 'w) ConfigCache \<times> 'w env" where
  "Refresh_set k v (scp, e) = snd (Set scp k v e)"

text \<open>
  \<open>Refresh scp ks ks' e\<close>: \<open>ks\<close> is the order of \<open>IterCb\<close> over the cache, \<open>ks'\<close> the order
  of the \<open>range\<close> over \<open>refreshItems\<close>, which visits a map in the same way.
\<close>

definition Refresh ::
  "('a, 'w) ConfigCache \<Rightarrow> string list \<Rightarrow> string list \<Rightarrow> 'w env
    \<Rightarrow> ('a, 'w) ConfigCache \<times> 'w env" where
  "Refresh scp ks ks' e =
     (case IterCb (cache scp) ks (Refresh_cb scp) (Map.empty, e) of
        (refreshItems, e') \<Rightarrow> IterCb refreshItems ks' Refresh_set (scp, e'))"

subsection \<open>The refresh worker\<close>

text \<open>
  \<open>atomic.CompareAndSwapInt32\<close> on one caller: whether the swap happened, and the value
  held afterwards.
\<close>

definition CompareAndSwapInt32 :: "32 word \<Rightarrow> 32 word \<Rightarrow> 32 word \<Rightarrow> bool \<times> 32 word" where
  "CompareAndSwapInt32 addr old new = (if addr = old then (True, new) else (False, addr))"

text \<open>
  A call returns its error or panics (\<open>time.NewTicker\<close> panics on an interval that is
  not positive). The goroutine a successful call launches is recorded with its ticker's
  interval and its stop channel, at the end of the list of goroutines launched so far.
\<close>

datatype outcome = Returned "error option" | Panicked

record worker =
  interval :: duration
  stop :: chan

definition already_started :: error where
  "already_started = errors_New ''worker has already been started''"

definition RunRefreshWorker ::
  "('a, 'w) ConfigCache \<Rightarrow> duration \<Rightarrow> chan \<Rightarrow> worker list
    \<Rightarrow> outcome \<times> ('a, 'w) ConfigCache \<times> worker list" where
  "RunRefreshWorker scp d st gs =
     (case CompareAndSwapInt32 (refreshWorkerRunning scp) 0 1 of
        (False, r) \<Rightarrow> (Returned (Some already_started), scp, gs)
      | (True, r) \<Rightarrow>
          (if d \<le> 0
           then (Panicked, scp\<lparr>refreshWorkerRunning := r, stopRefreshWorker := st\<rparr>, gs)
           else (Returned None,
                 scp\<lparr>refreshWorkerRunning := r, stopRefreshWorker := st\<rparr>,
                 gs @ [\<lparr>interval = d, stop = st\<rparr>])))"

subsection \<open>Sequences of calls\<close>

text \<open>
  \<open>Set_all\<close> makes one \<open>Set\<close> call after another and returns the error of each call.
\<close>

fun Set_all ::
  "('a, 'w) ConfigCache \<Rightarrow> (string \<times> ('a, 'w) Value) list \<Rightarrow> 'w env
    \<Rightarrow> error option list \<times> ('a, 'w) ConfigCache \<times> 'w env" where
  "Set_all scp [] e = ([], scp, e)"
| "Set_all scp ((k, v) # kvs) e =
     (case Set scp k v e of
        (err, scp', e') \<Rightarrow>
          (case Set_all scp' kvs e' of
             (errs, scp'', e'') \<Rightarrow> (err # errs, scp'', e'')))"

text \<open>
  The calls that change a cache, and a run of them from a given cache. \<open>Set\<close> is the only
  one that writes entries; the package exports no other way to the map.
\<close>

datatype ('a, 'w) call =
    CallSet string "('a, 'w) Value"
  | CallDelete string
  | CallFlushExpired "string list"
  | CallRefresh "string list" "string list"

fun run_call ::
  "('a, 'w) ConfigCache \<Rightarrow> ('a, 'w) call \<Rightarrow> 'w env \<Rightarrow> ('a, 'w) ConfigCache \<times> 'w env" where
  "run_call scp (CallSet k v) e = snd (Set scp k v e)"
| "run_call scp (CallDelete k) e = (Delete scp k, e)"
| "run_call scp (CallFlushExpired ks) e = FlushExpired scp ks e"
| "run_call scp (CallRefresh ks ks') e = Refresh scp ks ks' e"

fun run_calls ::
  "('a, 'w) ConfigCache \<Rightarrow> ('a, 'w) call list \<Rightarrow> 'w env \<Rightarrow> ('a, 'w) ConfigCache \<times> 'w env" where
  "run_calls scp [] e = (scp, e)"
| "run_calls scp (c # cs) e = (case run_call scp c e of (scp', e') \<Rightarrow> run_calls scp' cs e')"

text \<open>No entry of the cache has the zero time as its expiry.\<close>

definition no_zero_expires :: "('a, 'w) ConfigCache \<Rightarrow> bool" where
  "no_zero_expires scp = (\<forall>k v. cache scp k = Some v \<longrightarrow> \<not> IsZero (expires v))"

subsection \<open>Clocks and callbacks of the examples\<close>

definition running_clock :: "time \<Rightarrow> nat \<Rightarrow> time" where
  "running_clock t n = t + int n"

definition cb_ok :: "'a \<Rightarrow> ('a, 'w) RefreshCb" where
  "cb_ok x w = ((x, None), w)"

definition cb_fail :: "'a \<Rightarrow> ('a, 'w) RefreshCb" where
  "cb_fail x w = ((x, Some (errors_New ''timeout'')), w)"

definition ex_env :: "unit env" where
  "ex_env = \<lparr>clock = running_clock 100, ticks = 0, world = ()\<rparr>"

definition ex_wall_env :: "unit env" where
  "ex_wall_env = \<lparr>clock = running_clock 63900000000000000000, ticks = 0, world = ()\<rparr>"

definition ex_entry :: "int \<Rightarrow> time \<Rightarrow> (int, unit) RefreshCb option \<Rightarrow> (int, unit) Value" where
  "ex_entry i t cb = \<lparr>Item = i, expires = t, refreshWith = cb\<rparr>"

definition ex_store :: "int \<Rightarrow> (string \<times> (int, unit) Value) list \<Rightarrow> (int, unit) ConfigCache" where
  "ex_store l kvs = (NewConfigCache 10 l)\<lparr>cache := map_of kvs\<rparr>"

section \<open>Set, Get and the capacity check\<close>

lemma Set_ok:
  "limit scp < 0 \<or> Count (cache scp) < limit scp \<Longrightarrow>
   Set scp k v e =
     (if IsZero (expires v)
      then (None,
            scp\<lparr>cache := (cache scp)(k \<mapsto> v\<lparr>expires := Add (clock e (ticks e)) (ttl scp)\<rparr>)\<rparr>,
            e\<lparr>ticks := Suc (ticks e)\<rparr>)
      else (None, scp\<lparr>cache := (cache scp)(k \<mapsto> v)\<rparr>, e))"
  by (simp add: Set_def getExpiryTime_def now_def)

lemma Set_full:
  "0 \<le> limit scp \<Longrightarrow> limit scp \<le> Count (cache scp) \<Longrightarrow>
   Set scp k v e = (Some cache_full, scp, e)"
  by (simp add: Set_def)

lemma Set_None_iff:
  "fst (Set scp k v e) = None \<longleftrightarrow> limit scp < 0 \<or> Count (cache scp) < limit scp"
  by (auto simp: Set_def split: prod.splits)

text \<open>
  C6: after a successful \<open>Set(k, v)\<close>, \<open>Get(k)\<close> returns the stored entry with
  \<open>found = true\<close>: it is \<open>v\<close> with its payload and callback, under the expiry that \<open>Set\<close>
  stored, whatever that expiry is (\<open>Get\<close> reads no clock and never looks at \<open>expires\<close>).
  \<open>Get\<close> on an absent key returns the zero entry and \<open>found = false\<close>.
\<close>

theorem Get_after_Set:
  "(Set scp k v e = (None, scp', e') \<longrightarrow> (\<exists>t. Get scp' k = (v\<lparr>expires := t\<rparr>, True)))
   \<and> (cache scp k = None \<longrightarrow> Get scp k = (Value_zero, False))"
proof (intro conjI impI)
  assume s: "Set scp k v e = (None, scp', e')"
  then have "fst (Set scp k v e) = None" by simp
  then have ok: "limit scp < 0 \<or> Count (cache scp) < limit scp"
    by (simp only: Set_None_iff)
  show "\<exists>t. Get scp' k = (v\<lparr>expires := t\<rparr>, True)"
  proof (cases "IsZero (expires v)")
    case True
    with s ok show ?thesis by (auto simp: Set_ok Get_def)
  next
    case False
    with s ok have "Get scp' k = (v\<lparr>expires := expires v\<rparr>, True)"
      by (auto simp: Set_ok Get_def)
    then show ?thesis ..
  qed
next
  assume "cache scp k = None"
  then show "Get scp k = (Value_zero, False)" by (simp add: Get_def)
qed

text \<open>
  An entry that expired long before the clock's first reading is stored and found;
  a key never set is not.
\<close>

theorem Get_after_Set_witness:
  "Set (ex_store 1 []) ''a'' (ex_entry 5 1 None) ex_env =
     (None, ex_store 1 [(''a'', ex_entry 5 1 None)], ex_env)
   \<and> Get (ex_store 1 [(''a'', ex_entry 5 1 None)]) ''a'' = (ex_entry 5 1 None, True)
   \<and> cache (ex_store 1 []) ''b'' = None
   \<and> Get (ex_store 1 []) ''b'' = (Value_zero, False)"
proof -
  have h1: "Set (ex_store 1 []) ''a'' (ex_entry 5 1 None) ex_env =
              (None, ex_store 1 [(''a'', ex_entry 5 1 None)], ex_env)"
    by (simp add: Set_def ex_store_def ex_entry_def NewConfigCache_def Count_def IsZero_def)
  have h2: "cache (ex_store 1 []) ''b'' = None"
    by (simp add: ex_store_def)
  from Get_after_Set [of "ex_store 1 []" "''a''" "ex_entry 5 1 None" ex_env
         "ex_store 1 [(''a'', ex_entry 5 1 None)]" ex_env]
       Get_after_Set [of "ex_store 1 []" "''b''"] h1 h2
  show ?thesis by (auto simp: Get_def ex_store_def ex_entry_def)
qed

text \<open>
  C8: the entry stored by a successful \<open>Set\<close> has its \<open>expires\<close> field set by that call:
  it is the expiry the caller put into the value when there is one (a time that is not
  the zero time, which is how \<open>Set\<close> tells), and otherwise \<open>now() + ttl\<close>, from the
  clock's reading at the call and the TTL of the store.
\<close>

theorem Set_expires:
  "Set scp k v e = (None, scp', e') \<Longrightarrow>
   cache scp' k =
     Some (v\<lparr>expires := (if IsZero (expires v) then Add (fst (now e)) (ttl scp)
                          else expires v)\<rparr>)"
  by (auto simp: Set_def getExpiryTime_def now_def split: if_splits prod.splits)

text \<open>
  A value without an expiry is stored under 100 + 10, the reading of the clock plus the
  TTL; a value that expires at 7 is stored with that expiry.
\<close>

theorem Set_expires_witness:
  "Set (ex_store 2 []) ''a'' (ex_entry 5 0 None) ex_env =
     (None, ex_store 2 [(''a'', ex_entry 5 110 None)], ex_env\<lparr>ticks := 1\<rparr>)
   \<and> cache (ex_store 2 [(''a'', ex_entry 5 110 None)]) ''a'' = Some (ex_entry 5 110 None)
   \<and> Set (ex_store 2 []) ''b'' (ex_entry 5 7 None) ex_env =
     (None, ex_store 2 [(''b'', ex_entry 5 7 None)], ex_env)
   \<and> cache (ex_store 2 [(''b'', ex_entry 5 7 None)]) ''b'' = Some (ex_entry 5 7 None)"
proof -
  have h1: "Set (ex_store 2 []) ''a'' (ex_entry 5 0 None) ex_env =
     (None, ex_store 2 [(''a'', ex_entry 5 110 None)], ex_env\<lparr>ticks := 1\<rparr>)"
    by (simp add: Set_def ex_store_def ex_entry_def ex_env_def NewConfigCache_def Count_def
        IsZero_def getExpiryTime_def now_def Add_def running_clock_def)
  have h2: "Set (ex_store 2 []) ''b'' (ex_entry 5 7 None) ex_env =
     (None, ex_store 2 [(''b'', ex_entry 5 7 None)], ex_env)"
    by (simp add: Set_def ex_store_def ex_entry_def NewConfigCache_def Count_def IsZero_def)
  from Set_expires [OF h1] Set_expires [OF h2] h1 h2
  show ?thesis
    by (simp add: ex_store_def ex_entry_def)
qed

text \<open>
  C1, as the code has it: \<open>Set\<close> checks the capacity on every call and never looks whether
  the key is new. In a store with a limit that is not negative and with as many entries as
  the limit (or more), \<open>Set(k, v)\<close> fails with the capacity error and leaves the store as it
  was, for every key, also one that is present. \<open>Set\<close> on a present key succeeds and
  overwrites the entry exactly when the limit is negative or the number of entries is below
  the limit.
\<close>

theorem Set_capacity_any_key:
  "(0 \<le> limit scp \<and> limit scp \<le> Count (cache scp) \<longrightarrow>
      Set scp k v e = (Some cache_full, scp, e))
   \<and> (limit scp < 0 \<or> Count (cache scp) < limit scp \<longrightarrow>
      fst (Set scp k v e) = None
      \<and> (\<exists>t. cache (fst (snd (Set scp k v e))) k = Some (v\<lparr>expires := t\<rparr>)))"
proof (intro conjI impI)
  assume "0 \<le> limit scp \<and> limit scp \<le> Count (cache scp)"
  then show "Set scp k v e = (Some cache_full, scp, e)" by (simp add: Set_full)
next
  assume ok: "limit scp < 0 \<or> Count (cache scp) < limit scp"
  then show "fst (Set scp k v e) = None" by (simp only: Set_None_iff)
next
  assume ok: "limit scp < 0 \<or> Count (cache scp) < limit scp"
  show "\<exists>t. cache (fst (snd (Set scp k v e))) k = Some (v\<lparr>expires := t\<rparr>)"
  proof (cases "IsZero (expires v)")
    case True
    with ok show ?thesis by (auto simp: Set_ok)
  next
    case False
    with ok have "cache (fst (snd (Set scp k v e))) k = Some (v\<lparr>expires := expires v\<rparr>)"
      by (simp add: Set_ok)
    then show ?thesis ..
  qed
qed

text \<open>
  The store holds one entry under the limit 1: overwriting that entry fails. Under the
  limit 2 the same overwrite succeeds.
\<close>

theorem Set_capacity_any_key_witness:
  "0 \<le> limit (ex_store 1 [(''a'', ex_entry 5 1000 None)])
   \<and> limit (ex_store 1 [(''a'', ex_entry 5 1000 None)])
       \<le> Count (cache (ex_store 1 [(''a'', ex_entry 5 1000 None)]))
   \<and> Set (ex_store 1 [(''a'', ex_entry 5 1000 None)]) ''a'' (ex_entry 6 2000 None) ex_env =
       (Some cache_full, ex_store 1 [(''a'', ex_entry 5 1000 None)], ex_env)
   \<and> Count (cache (ex_store 2 [(''a'', ex_entry 5 1000 None)]))
       < limit (ex_store 2 [(''a'', ex_entry 5 1000 None)])
   \<and> fst (Set (ex_store 2 [(''a'', ex_entry 5 1000 None)]) ''a'' (ex_entry 6 2000 None) ex_env)
       = None"
proof -
  have h1: "0 \<le> limit (ex_store 1 [(''a'', ex_entry 5 1000 None)])
      \<and> limit (ex_store 1 [(''a'', ex_entry 5 1000 None)])
          \<le> Count (cache (ex_store 1 [(''a'', ex_entry 5 1000 None)]))"
    by (simp add: ex_store_def NewConfigCache_def Count_def)
  have h2: "Count (cache (ex_store 2 [(''a'', ex_entry 5 1000 None)]))
       < limit (ex_store 2 [(''a'', ex_entry 5 1000 None)])"
    by (simp add: ex_store_def NewConfigCache_def Count_def)
  from h1 h2
    Set_capacity_any_key [of "ex_store 1 [(''a'', ex_entry 5 1000 None)]" "''a''"
      "ex_entry 6 2000 None" ex_env]
    Set_capacity_any_key [of "ex_store 2 [(''a'', ex_entry 5 1000 None)]" "''a''"
      "ex_entry 6 2000 None" ex_env]
  show ?thesis by simp
qed

text \<open>
  The store is full (one entry, limit 1) and the key \<open>a\<close> is present: \<open>Set\<close> on \<open>a\<close>
  returns the capacity error and the entry keeps its old payload.
\<close>

theorem Set_overwrite_at_capacity_fails:
  "limit (ex_store 1 [(''a'', ex_entry 5 1000 None)]) = 1
   \<and> Count (cache (ex_store 1 [(''a'', ex_entry 5 1000 None)])) = 1
   \<and> cache (ex_store 1 [(''a'', ex_entry 5 1000 None)]) ''a'' = Some (ex_entry 5 1000 None)
   \<and> Set (ex_store 1 [(''a'', ex_entry 5 1000 None)]) ''a'' (ex_entry 6 2000 None) ex_env =
       (Some cache_full, ex_store 1 [(''a'', ex_entry 5 1000 None)], ex_env)"
  by (simp add: Set_def ex_store_def NewConfigCache_def Count_def)

section \<open>Filling a store up to its limit\<close>

lemma Set_ok_fields:
  assumes "limit scp < 0 \<or> Count (cache scp) < limit scp"
  shows "fst (Set scp k v e) = None"
    and "dom (cache (fst (snd (Set scp k v e)))) = insert k (dom (cache scp))"
    and "limit (fst (snd (Set scp k v e))) = limit scp"
  using assms by (simp_all add: Set_ok)

lemma Set_limit: "limit (fst (snd (Set scp k v e))) = limit scp"
  by (simp add: Set_def split: prod.splits)

lemma Set_ttl: "ttl (fst (snd (Set scp k v e))) = ttl scp"
  by (simp add: Set_def split: prod.splits)

lemma Set_clock: "clock (snd (snd (Set scp k v e))) = clock e"
  by (simp add: Set_def getExpiryTime_def now_def split: prod.splits)

lemma Set_other:
  "k \<noteq> key \<Longrightarrow> cache (fst (snd (Set scp k v e))) key = cache scp key"
  by (simp add: Set_def split: prod.splits)

lemma Set_dom_present:
  "k \<in> dom (cache scp) \<Longrightarrow> dom (cache (fst (snd (Set scp k v e)))) = dom (cache scp)"
  by (auto simp: Set_def getExpiryTime_def now_def split: prod.splits)

lemma Set_all_room:
  "finite (dom (cache scp)) \<Longrightarrow> distinct (map fst kvs) \<Longrightarrow>
   fst ` set kvs \<inter> dom (cache scp) = {} \<Longrightarrow>
   Count (cache scp) + int (length kvs) \<le> limit scp \<Longrightarrow>
   fst (Set_all scp kvs e) = replicate (length kvs) None
   \<and> dom (cache (fst (snd (Set_all scp kvs e)))) = dom (cache scp) \<union> fst ` set kvs
   \<and> limit (fst (snd (Set_all scp kvs e))) = limit scp"
proof (induction kvs arbitrary: scp e)
  case Nil
  show ?case by simp
next
  case (Cons kv kvs)
  obtain k v where kv: "kv = (k, v)" by (cases kv)
  obtain err scp1 e1 where s: "Set scp k v e = (err, scp1, e1)" by (cases "Set scp k v e")
  from Cons.prems have room: "limit scp < 0 \<or> Count (cache scp) < limit scp" by simp
  from Cons.prems kv have knew: "k \<notin> dom (cache scp)" by auto
  from Set_ok_fields [OF room, of k v e] s
  have err: "err = None" and dom1: "dom (cache scp1) = insert k (dom (cache scp))"
    and lim1: "limit scp1 = limit scp" by simp_all
  from dom1 Cons.prems(1) have fin1: "finite (dom (cache scp1))" by simp
  from dom1 knew Cons.prems(1) have cnt1: "Count (cache scp1) = Count (cache scp) + 1"
    by (simp add: Count_def)
  from Cons.prems kv have dist: "distinct (map fst kvs)" and knot: "k \<notin> fst ` set kvs"
    by auto
  from Cons.prems kv dom1 knot have disj: "fst ` set kvs \<inter> dom (cache scp1) = {}" by auto
  from Cons.prems cnt1 lim1 have room1: "Count (cache scp1) + int (length kvs) \<le> limit scp1"
    by simp
  note ih = Cons.IH [OF fin1 dist disj room1, of e1]
  obtain errs scp2 e2 where r: "Set_all scp1 kvs e1 = (errs, scp2, e2)"
    by (cases "Set_all scp1 kvs e1")
  from ih r err dom1 lim1 show ?case
    by (auto simp: kv s)
qed

lemma Set_all_unlimited:
  "limit scp < 0 \<Longrightarrow> fst (Set_all scp kvs e) = replicate (length kvs) None"
proof (induction kvs arbitrary: scp e)
  case Nil
  show ?case by simp
next
  case (Cons kv kvs)
  obtain k v where kv: "kv = (k, v)" by (cases kv)
  obtain err scp1 e1 where s: "Set scp k v e = (err, scp1, e1)" by (cases "Set scp k v e")
  from Cons.prems have room: "limit scp < 0 \<or> Count (cache scp) < limit scp" by simp
  from Set_ok_fields [OF room, of k v e] s Cons.prems
  have err: "err = None" and lim1: "limit scp1 < 0" by simp_all
  obtain errs scp2 e2 where r: "Set_all scp1 kvs e1 = (errs, scp2, e2)"
    by (cases "Set_all scp1 kvs e1")
  from Cons.IH [OF lim1, of e1] err r show ?case
    by (simp add: kv s)
qed

text \<open>
  C3: with a limit \<open>L\<close> that is not negative, \<open>L\<close> calls of \<open>Set\<close> with distinct keys on an
  empty store all return no error; one more \<open>Set\<close> with another new key then returns the
  capacity error, leaves the store and the environment as they were, and the key stays
  absent. With a negative limit no \<open>Set\<close> of any sequence of calls, from any store, returns
  an error.
\<close>

theorem Set_all_limit:
  "(0 \<le> limit scp \<and> cache scp = Map.empty \<and> int (length kvs) = limit scp
      \<and> distinct (map fst kvs) \<and> k \<notin> fst ` set kvs
      \<and> Set_all scp kvs e = (errs, scp', e') \<longrightarrow>
        errs = replicate (length kvs) None
        \<and> dom (cache scp') = fst ` set kvs
        \<and> Set scp' k v e' = (Some cache_full, scp', e')
        \<and> cache scp' k = None)
   \<and> (limit scp < 0 \<longrightarrow> fst (Set_all scp kvs e) = replicate (length kvs) None)"
proof (rule conjI; rule impI)
  assume a: "0 \<le> limit scp \<and> cache scp = Map.empty \<and> int (length kvs) = limit scp
      \<and> distinct (map fst kvs) \<and> k \<notin> fst ` set kvs
      \<and> Set_all scp kvs e = (errs, scp', e')"
  then have "finite (dom (cache scp))" "distinct (map fst kvs)"
    "fst ` set kvs \<inter> dom (cache scp) = {}"
    "Count (cache scp) + int (length kvs) \<le> limit scp"
    by (simp_all add: Count_def)
  from Set_all_room [OF this, of e] a
  have errs: "errs = replicate (length kvs) None"
    and dom: "dom (cache scp') = fst ` set kvs" and lim: "limit scp' = limit scp"
    by simp_all
  from a have "distinct (map fst kvs)" by simp
  then have "card (fst ` set kvs) = length kvs"
    using distinct_card [of "map fst kvs"] by simp
  with dom a lim have full: "0 \<le> limit scp'" "limit scp' \<le> Count (cache scp')"
    by (simp_all add: Count_def)
  from a dom have "k \<notin> dom (cache scp')" by simp
  then have "cache scp' k = None" by auto
  with errs dom Set_full [OF full]
  show "errs = replicate (length kvs) None
        \<and> dom (cache scp') = fst ` set kvs
        \<and> Set scp' k v e' = (Some cache_full, scp', e')
        \<and> cache scp' k = None" by simp
next
  assume "limit scp < 0"
  then show "fst (Set_all scp kvs e) = replicate (length kvs) None"
    by (rule Set_all_unlimited)
qed

text \<open>
  Under the limit 2 two keys go in and the third is refused; under the limit -1 both
  calls succeed.
\<close>

theorem Set_all_limit_witness:
  "0 \<le> limit (ex_store 2 []) \<and> cache (ex_store 2 []) = Map.empty
   \<and> int (length [(''a'', ex_entry 5 0 None), (''b'', ex_entry 6 7 None)]) = limit (ex_store 2 [])
   \<and> distinct (map fst [(''a'', ex_entry 5 0 None), (''b'', ex_entry 6 7 None)])
   \<and> ''c'' \<notin> fst ` set [(''a'', ex_entry 5 0 None), (''b'', ex_entry 6 7 None)]
   \<and> Set_all (ex_store 2 []) [(''a'', ex_entry 5 0 None), (''b'', ex_entry 6 7 None)] ex_env
       = ([None, None],
          ex_store 2 [(''b'', ex_entry 6 7 None), (''a'', ex_entry 5 110 None)],
          ex_env\<lparr>ticks := 1\<rparr>)
   \<and> Set (ex_store 2 [(''b'', ex_entry 6 7 None), (''a'', ex_entry 5 110 None)])
          ''c'' (ex_entry 7 0 None) (ex_env\<lparr>ticks := 1\<rparr>)
       = (Some cache_full,
          ex_store 2 [(''b'', ex_entry 6 7 None), (''a'', ex_entry 5 110 None)],
          ex_env\<lparr>ticks := 1\<rparr>)
   \<and> limit (ex_store (- 1) []) < 0
   \<and> fst (Set_all (ex_store (- 1) []) [(''a'', ex_entry 5 0 None), (''b'', ex_entry 6 7 None)] ex_env)
       = [None, None]"
proof -
  let ?kvs = "[(''a'', ex_entry 5 0 None), (''b'', ex_entry 6 7 None)]"
  let ?s = "ex_store 2 [(''b'', ex_entry 6 7 None), (''a'', ex_entry 5 110 None)]"
  have r: "Set_all (ex_store 2 []) ?kvs ex_env = ([None, None], ?s, ex_env\<lparr>ticks := 1\<rparr>)"
    by (simp add: Set_def ex_store_def ex_entry_def ex_env_def NewConfigCache_def Count_def
        IsZero_def getExpiryTime_def now_def Add_def running_clock_def)
  have h: "0 \<le> limit (ex_store 2 []) \<and> cache (ex_store 2 []) = Map.empty
      \<and> int (length ?kvs) = limit (ex_store 2 [])
      \<and> distinct (map fst ?kvs) \<and> ''c'' \<notin> fst ` set ?kvs"
    by (simp add: ex_store_def NewConfigCache_def)
  have n: "limit (ex_store (- 1) []) < 0"
    by (simp add: ex_store_def NewConfigCache_def)
  from h r have "0 \<le> limit (ex_store 2 []) \<and> cache (ex_store 2 []) = Map.empty
      \<and> int (length ?kvs) = limit (ex_store 2 [])
      \<and> distinct (map fst ?kvs) \<and> ''c'' \<notin> fst ` set ?kvs
      \<and> Set_all (ex_store 2 []) ?kvs ex_env = ([None, None], ?s, ex_env\<lparr>ticks := 1\<rparr>)"
    by (simp only: simp_thms)
  from Set_all_limit [THEN conjunct1, rule_format, OF this, of "ex_entry 7 0 None"]
  have c1: "Set ?s ''c'' (ex_entry 7 0 None) (ex_env\<lparr>ticks := 1\<rparr>)
       = (Some cache_full, ?s, ex_env\<lparr>ticks := 1\<rparr>)"
    by (simp only: simp_thms)
  from Set_all_limit [THEN conjunct2, rule_format, OF n, of ?kvs ex_env]
  have c2: "fst (Set_all (ex_store (- 1) []) ?kvs ex_env) = [None, None]"
    by simp
  from h r c1 n c2 show ?thesis by (simp only: simp_thms)
qed

section \<open>Iterations\<close>

lemma IterCb_append:
  "IterCb m (xs @ ys) fn s = IterCb m ys fn (IterCb m xs fn s)"
  by (induction xs arbitrary: s) (simp_all split: option.splits)

lemma IterCb_invariant:
  assumes "P s" and "\<And>k v s. m k = Some v \<Longrightarrow> P s \<Longrightarrow> P (fn k v s)"
  shows "P (IterCb m ks fn s)"
  using assms(1)
proof (induction ks arbitrary: s)
  case Nil
  then show ?case by simp
next
  case (Cons key ks)
  show ?case
  proof (cases "m key")
    case None
    with Cons show ?thesis by simp
  next
    case (Some v)
    from assms(2) [OF Some Cons.prems] have "P (fn key v s)" .
    from Cons.IH [OF this] Some show ?thesis by simp
  qed
qed

lemma IterCb_unvisited:
  assumes "\<And>k v s. k \<in> set ks \<Longrightarrow> m k = Some v \<Longrightarrow> g (fn k v s) = g s"
  shows "g (IterCb m ks fn s) = g s"
  using assms
proof (induction ks arbitrary: s)
  case Nil
  show ?case by simp
next
  case (Cons key ks)
  have ih: "g (IterCb m ks fn s') = g s'" for s'
    by (rule Cons.IH) (simp add: Cons.prems)
  show ?case
  proof (cases "m key")
    case None
    with ih show ?thesis by simp
  next
    case (Some v)
    from Cons.prems [of key v s] Some have "g (fn key v s) = g s" by simp
    with ih [of "fn key v s"] Some show ?thesis by simp
  qed
qed

section \<open>FlushExpired\<close>

lemma FlushExpired_cb_step:
  "FlushExpired_cb key item (acc, e) =
     (if expires item < clock e (ticks e) then acc @ [key] else acc,
      e\<lparr>ticks := Suc (ticks e)\<rparr>)"
  by (simp add: isExpired_def now_def After_def)

lemma FlushExpired_iter_env:
  "set ks \<subseteq> dom m \<Longrightarrow>
   snd (IterCb m ks FlushExpired_cb (acc, e)) = e\<lparr>ticks := ticks e + length ks\<rparr>"
proof (induction ks arbitrary: acc e)
  case Nil
  show ?case by simp
next
  case (Cons key ks)
  then obtain item where item: "m key = Some item" by auto
  from Cons.prems have sub: "set ks \<subseteq> dom m" by simp
  show ?case
    by (simp add: item FlushExpired_cb_step Cons.IH [OF sub] del: FlushExpired_cb.simps)
qed

lemma FlushExpired_iter_keys:
  "set ks \<subseteq> dom m \<Longrightarrow>
   set (fst (IterCb m ks FlushExpired_cb (acc, e))) =
     set acc \<union> {ks ! i | i. i < length ks \<and> expires (the (m (ks ! i))) < clock e (ticks e + i)}"
proof (induction ks arbitrary: acc e)
  case Nil
  show ?case by simp
next
  case (Cons key ks)
  then obtain item where item: "m key = Some item" by auto
  from Cons.prems have sub: "set ks \<subseteq> dom m" by simp
  let ?P = "\<lambda>i. expires (the (m ((key # ks) ! i))) < clock e (ticks e + i)"
  have split: "{(key # ks) ! i | i. i < length (key # ks) \<and> ?P i} =
      (if ?P 0 then {key} else {}) \<union> {ks ! i | i. i < length ks \<and> ?P (Suc i)}"
    (is "?L = ?R")
  proof
    show "?L \<subseteq> ?R"
    proof
      fix x assume "x \<in> ?L"
      then obtain i where i: "x = (key # ks) ! i" "i < length (key # ks)" "?P i" by blast
      show "x \<in> ?R"
      proof (cases i)
        case 0
        with i show ?thesis by simp
      next
        case (Suc j)
        with i have "x = ks ! j" "j < length ks" "?P (Suc j)" by simp_all
        then show ?thesis by blast
      qed
    qed
    show "?R \<subseteq> ?L"
    proof
      fix x assume "x \<in> ?R"
      then consider "?P 0" "x = key" | j where "x = ks ! j" "j < length ks" "?P (Suc j)"
        by (auto split: if_splits)
      then show "x \<in> ?L"
      proof cases
        case 1
        then have "x = (key # ks) ! 0" "0 < length (key # ks)" by simp_all
        with 1 show ?thesis by blast
      next
        case 2
        then have "x = (key # ks) ! Suc j" "Suc j < length (key # ks)" by simp_all
        with 2 show ?thesis by blast
      qed
    qed
  qed
  show ?case
    unfolding split
    by (auto simp add: item FlushExpired_cb_step Cons.IH [OF sub] simp del: FlushExpired_cb.simps)
qed

lemma Delete_all_cache:
  "Delete_all scp ks = scp\<lparr>cache := (\<lambda>k. if k \<in> set ks then None else cache scp k)\<rparr>"
proof (induction ks arbitrary: scp)
  case Nil
  show ?case by simp
next
  case (Cons key ks)
  have h: "(\<lambda>k. if k \<in> set ks then None else cache (Delete scp key) k) =
        (\<lambda>k. if k \<in> set (key # ks) then None else cache scp k)"
    by (rule ext) (simp add: Delete_def)
  have "Delete_all scp (key # ks) =
        (Delete scp key)\<lparr>cache := (\<lambda>k. if k \<in> set ks then None else cache (Delete scp key) k)\<rparr>"
    by (simp add: Cons.IH)
  also have "\<dots> = (Delete scp key)\<lparr>cache := (\<lambda>k. if k \<in> set (key # ks) then None else cache scp k)\<rparr>"
    by (simp only: h)
  also have "\<dots> = scp\<lparr>cache := (\<lambda>k. if k \<in> set (key # ks) then None else cache scp k)\<rparr>"
    by (simp add: Delete_def)
  finally show ?case .
qed

lemma FlushExpired_entries:
  assumes ord: "iter_order (cache scp) ks"
      and run: "FlushExpired scp ks e = (scp', e')"
  shows "(\<forall>i<length ks. cache scp' (ks ! i) =
            (if expires (the (cache scp (ks ! i))) < clock e (ticks e + i)
             then None else cache scp (ks ! i)))
         \<and> dom (cache scp') \<subseteq> set ks
         \<and> scp' = scp\<lparr>cache := cache scp'\<rparr>
         \<and> e' = e\<lparr>ticks := ticks e + length ks\<rparr>"
proof -
  from ord have sub: "set ks \<subseteq> dom (cache scp)" and dist: "distinct ks"
    and dom: "dom (cache scp) = set ks"
    by (simp_all add: iter_order_def)
  let ?fd = "fst (IterCb (cache scp) ks FlushExpired_cb ([], e))"
  from run have scp': "scp' = Delete_all scp ?fd"
    and e': "e' = snd (IterCb (cache scp) ks FlushExpired_cb ([], e))"
    by (auto simp: FlushExpired_def split: prod.splits)
  have fd: "set ?fd = {ks ! i | i. i < length ks \<and>
              expires (the (cache scp (ks ! i))) < clock e (ticks e + i)}"
    using FlushExpired_iter_keys [OF sub, of "[]" e] by simp
  have c': "cache scp' = (\<lambda>k. if k \<in> set ?fd then None else cache scp k)"
    unfolding scp' by (simp add: Delete_all_cache)
  have "cache scp' (ks ! i) =
          (if expires (the (cache scp (ks ! i))) < clock e (ticks e + i)
           then None else cache scp (ks ! i))" if i: "i < length ks" for i
  proof -
    have "ks ! i \<in> set ?fd \<longleftrightarrow> expires (the (cache scp (ks ! i))) < clock e (ticks e + i)"
    proof
      assume "ks ! i \<in> set ?fd"
      then obtain j where j: "ks ! i = ks ! j" "j < length ks"
        "expires (the (cache scp (ks ! j))) < clock e (ticks e + j)"
        unfolding fd by blast
      with dist i have "i = j" by (simp add: nth_eq_iff_index_eq)
      with j show "expires (the (cache scp (ks ! i))) < clock e (ticks e + i)" by simp
    next
      assume "expires (the (cache scp (ks ! i))) < clock e (ticks e + i)"
      with i show "ks ! i \<in> set ?fd" unfolding fd by blast
    qed
    then show ?thesis by (simp add: c')
  qed
  moreover have "dom (cache scp') \<subseteq> set ks"
    using dom by (auto simp: c' split: if_splits)
  moreover have "scp' = scp\<lparr>cache := cache scp'\<rparr>"
    unfolding scp' by (simp add: Delete_all_cache)
  moreover have "e' = e\<lparr>ticks := ticks e + length ks\<rparr>"
    unfolding e' by (rule FlushExpired_iter_env [OF sub])
  ultimately show ?thesis by blast
qed

text \<open>
  C5, as the code has it: \<open>FlushExpired\<close> reads the clock once for every entry it visits,
  not once for the call. It removes exactly the entries whose \<open>expires\<close> is strictly before
  the reading taken when the entry is visited (the entry visited as number \<open>i\<close> meets the
  reading number \<open>i\<close> of the call); an entry whose \<open>expires\<close> equals its reading is kept, and
  every entry that is kept is untouched, as are the other fields of the cache. When the
  clock does not move during the call, all readings are the one taken at its start.
\<close>

theorem FlushExpired_per_entry:
  assumes ord: "iter_order (cache scp) ks"
      and run: "FlushExpired scp ks e = (scp', e')"
  shows "(\<forall>i<length ks. cache scp' (ks ! i) =
            (if expires (the (cache scp (ks ! i))) < clock e (ticks e + i)
             then None else cache scp (ks ! i)))
         \<and> dom (cache scp') \<subseteq> set ks
         \<and> scp' = scp\<lparr>cache := cache scp'\<rparr>
         \<and> e' = e\<lparr>ticks := ticks e + length ks\<rparr>"
  using ord run by (rule FlushExpired_entries)

text \<open>
  Two entries expire at 100 and the clock reads 100, then 101: the first entry is kept,
  the second is removed.
\<close>

theorem FlushExpired_per_entry_witness:
  "iter_order (cache (ex_store (- 1) [(''a'', ex_entry 5 100 None), (''b'', ex_entry 7 100 None)]))
     [''a'', ''b'']
   \<and> cache (fst (FlushExpired
        (ex_store (- 1) [(''a'', ex_entry 5 100 None), (''b'', ex_entry 7 100 None)])
        [''a'', ''b''] ex_env)) ''a'' = Some (ex_entry 5 100 None)
   \<and> cache (fst (FlushExpired
        (ex_store (- 1) [(''a'', ex_entry 5 100 None), (''b'', ex_entry 7 100 None)])
        [''a'', ''b''] ex_env)) ''b'' = None
   \<and> ticks (snd (FlushExpired
        (ex_store (- 1) [(''a'', ex_entry 5 100 None), (''b'', ex_entry 7 100 None)])
        [''a'', ''b''] ex_env)) = 2"
proof -
  let ?s = "ex_store (- 1) [(''a'', ex_entry 5 100 None), (''b'', ex_entry 7 100 None)]"
  have h1: "iter_order (cache ?s) [''a'', ''b'']"
    by (auto simp: iter_order_def ex_store_def)
  have h2: "FlushExpired ?s [''a'', ''b''] ex_env =
      (fst (FlushExpired ?s [''a'', ''b''] ex_env), snd (FlushExpired ?s [''a'', ''b''] ex_env))"
    by simp
  note r = FlushExpired_per_entry [OF h1 h2]
  from r [THEN conjunct1, rule_format, of 0] r [THEN conjunct1, rule_format, of 1]
    r [THEN conjunct2, THEN conjunct2, THEN conjunct2] h1
  show ?thesis
    by (simp add: ex_store_def ex_entry_def ex_env_def running_clock_def)
qed

text \<open>
  The same call against the reading taken at its start: the clock reads 100 then, the
  entry \<open>b\<close> expires at 100, which is not before 100, and the entry is removed all the same.
\<close>

theorem FlushExpired_later_sample:
  "fst (now ex_env) = 100
   \<and> cache (ex_store (- 1) [(''a'', ex_entry 5 100 None), (''b'', ex_entry 7 100 None)]) ''b''
       = Some (ex_entry 7 100 None)
   \<and> expires (ex_entry 7 100 None) = 100
   \<and> cache (fst (FlushExpired
        (ex_store (- 1) [(''a'', ex_entry 5 100 None), (''b'', ex_entry 7 100 None)])
        [''a'', ''b''] ex_env)) ''b'' = None"
  by (simp add: FlushExpired_def isExpired_def now_def After_def Delete_def
      ex_store_def ex_entry_def ex_env_def running_clock_def)

text \<open>
  When the clock does not move during the call, every entry meets the reading taken at
  the start of the call.
\<close>

lemma FlushExpired_steady_clock:
  assumes ord: "iter_order (cache scp) ks"
      and run: "FlushExpired scp ks e = (scp', e')"
      and steady: "\<forall>i<length ks. clock e (ticks e + i) = clock e (ticks e)"
  shows "cache scp' k =
      (case cache scp k of
         None \<Rightarrow> None
       | Some v \<Rightarrow> if expires v < fst (now e) then None else Some v)"
proof (cases "k \<in> set ks")
  case True
  then obtain i where i: "i < length ks" "ks ! i = k" by (auto simp: in_set_conv_nth)
  from ord True obtain v where v: "cache scp k = Some v" by (auto simp: iter_order_def)
  from FlushExpired_entries [OF ord run] i steady
  have "cache scp' k = (if expires (the (cache scp k)) < clock e (ticks e) then None else cache scp k)"
    by auto
  with v show ?thesis by (simp add: now_def)
next
  case False
  with ord have "cache scp k = None" by (auto simp: iter_order_def)
  moreover from FlushExpired_entries [OF ord run] False have "cache scp' k = None" by auto
  ultimately show ?thesis by simp
qed

section \<open>Refresh\<close>

lemma Refresh_cb_other:
  "k \<noteq> key \<Longrightarrow> fst (Refresh_cb scp k item s) key = fst s key"
  by (cases s) (simp split: option.splits prod.splits)

lemma Refresh_cb_dom:
  "dom (fst (Refresh_cb scp k item s)) \<subseteq> insert k (dom (fst s))"
  by (cases s) (auto split: option.splits prod.splits)

lemma Refresh_cb_error:
  "refreshWith item = Some cb \<Longrightarrow> cb (world e) = ((resp, Some err), w') \<Longrightarrow>
   Refresh_cb scp k item (items, e) = (items, e\<lparr>world := w'\<rparr>)"
  by simp

lemma Refresh_cb_success:
  "refreshWith item = Some cb \<Longrightarrow> cb (world e) = ((resp, None), w') \<Longrightarrow>
   Refresh_cb scp k item (items, e) =
     (items(k \<mapsto> \<lparr>Item = resp, expires = Add (clock e (ticks e)) (ttl scp),
                     refreshWith = Some cb\<rparr>),
      e\<lparr>world := w', ticks := Suc (ticks e)\<rparr>)"
  by (simp add: getExpiryTime_def now_def)

lemma Refresh_items_dom:
  "dom (fst (IterCb (cache scp) ks (Refresh_cb scp) (Map.empty, e))) \<subseteq> dom (cache scp)"
proof (rule IterCb_invariant [where P = "\<lambda>s. dom (fst s) \<subseteq> dom (cache scp)"])
  show "dom (fst (Map.empty, e)) \<subseteq> dom (cache scp)" by simp
next
  fix k v and s :: "(string \<rightharpoonup> ('a, 'b) Value) \<times> 'b env"
  assume "cache scp k = Some v" and "dom (fst s) \<subseteq> dom (cache scp)"
  with Refresh_cb_dom [of scp k v s]
  show "dom (fst (Refresh_cb scp k v s)) \<subseteq> dom (cache scp)" by auto
qed

lemma Refresh_set_dom:
  assumes "dom items \<subseteq> dom (cache scp)"
  shows "dom (cache (fst (IterCb items ks Refresh_set (scp, e)))) = dom (cache scp)"
proof (rule IterCb_invariant [where P = "\<lambda>s. dom (cache (fst s)) = dom (cache scp)"])
  show "dom (cache (fst (scp, e))) = dom (cache scp)" by simp
next
  fix k v and s :: "('a, 'b) ConfigCache \<times> 'b env"
  assume kv: "items k = Some v" and inv: "dom (cache (fst s)) = dom (cache scp)"
  obtain scp1 e1 where s: "s = (scp1, e1)" by (cases s)
  from kv assms inv s have "k \<in> dom (cache scp1)" by auto
  from Set_dom_present [OF this, of v e1] inv s
  show "dom (cache (fst (Refresh_set k v s))) = dom (cache scp)" by simp
qed

text \<open>
  C10: \<open>Refresh\<close> keeps the set of keys of the store, whatever the callbacks return and
  whatever the two iteration orders are: it inserts no key and removes none.
\<close>

theorem Refresh_keys:
  "dom (cache (fst (Refresh scp ks ks' e))) = dom (cache scp)"
proof -
  obtain items e1 where it: "IterCb (cache scp) ks (Refresh_cb scp) (Map.empty, e) = (items, e1)"
    by (cases "IterCb (cache scp) ks (Refresh_cb scp) (Map.empty, e)")
  from Refresh_items_dom [of scp ks e] it have "dom items \<subseteq> dom (cache scp)"
    by simp
  from Refresh_set_dom [OF this] it show ?thesis by (simp add: Refresh_def)
qed

lemma Refresh_set_untouched:
  assumes "items key = None"
  shows "cache (fst (IterCb items ks Refresh_set s)) key = cache (fst s) key"
proof (rule IterCb_unvisited [where g = "\<lambda>s. cache (fst s) key"])
  fix k v and s :: "('a, 'b) ConfigCache \<times> 'b env"
  assume "items k = Some v"
  with assms have ne: "k \<noteq> key" by auto
  obtain scp1 e1 where s: "s = (scp1, e1)" by (cases s)
  from Set_other [OF ne, of scp1 v e1] s
  show "cache (fst (Refresh_set k v s)) key = cache (fst s) key" by simp
qed

text \<open>
  C4: an entry whose callback returns an error when \<open>Refresh\<close> runs it is left as it was:
  the same payload, the same expiry and the same callback. The callback of the entry under
  \<open>key\<close> runs on the callers' state that the iteration has reached after the entries
  visited before it (\<open>pre\<close>).
\<close>

theorem Refresh_callback_error:
  assumes ord: "iter_order (cache scp) (pre @ key # post)"
      and item: "cache scp key = Some item"
      and cb: "refreshWith item = Some cb"
      and before: "IterCb (cache scp) pre (Refresh_cb scp) (Map.empty, e) = (items0, e0)"
      and err: "cb (world e0) = ((resp, Some err), w')"
  shows "cache (fst (Refresh scp (pre @ key # post) ks' e)) key = Some item"
proof -
  from ord have npre: "key \<notin> set pre" and npost: "key \<notin> set post"
    by (simp_all add: iter_order_def)
  have "fst (IterCb (cache scp) pre (Refresh_cb scp) (Map.empty, e)) key = fst (Map.empty, e) key"
    by (rule IterCb_unvisited [where g = "\<lambda>s. fst s key"], rule Refresh_cb_other) (use npre in auto)
  with before have i0: "items0 key = None" by simp
  have "IterCb (cache scp) (pre @ key # post) (Refresh_cb scp) (Map.empty, e) =
      IterCb (cache scp) post (Refresh_cb scp) (items0, e0\<lparr>world := w'\<rparr>)"
    by (simp add: IterCb_append before item Refresh_cb_error [OF cb err] del: Refresh_cb.simps)
  moreover have "fst (IterCb (cache scp) post (Refresh_cb scp) (items0, e0\<lparr>world := w'\<rparr>)) key =
      fst (items0, e0\<lparr>world := w'\<rparr>) key"
    by (rule IterCb_unvisited [where g = "\<lambda>s. fst s key"], rule Refresh_cb_other) (use npost in auto)
  ultimately have none:
    "fst (IterCb (cache scp) (pre @ key # post) (Refresh_cb scp) (Map.empty, e)) key = None"
    using i0 by simp
  obtain items e1 where
    it: "IterCb (cache scp) (pre @ key # post) (Refresh_cb scp) (Map.empty, e) = (items, e1)"
    by (cases "IterCb (cache scp) (pre @ key # post) (Refresh_cb scp) (Map.empty, e)")
  with none have "items key = None" by simp
  with Refresh_set_untouched [of items key ks' "(scp, e1)"] it item
  show ?thesis by (simp add: Refresh_def)
qed

text \<open>
  Entry \<open>a\<close> refreshes to the payload 6; the callback of entry \<open>b\<close>, which is visited next,
  times out, and \<open>b\<close> is as before.
\<close>

theorem Refresh_callback_error_witness:
  "iter_order (cache (ex_store (- 1)
       [(''a'', ex_entry 5 50 (Some (cb_ok 6))), (''b'', ex_entry 7 60 (Some (cb_fail 0)))]))
     ([''a''] @ ''b'' # [])
   \<and> cache (ex_store (- 1)
       [(''a'', ex_entry 5 50 (Some (cb_ok 6))), (''b'', ex_entry 7 60 (Some (cb_fail 0)))]) ''b''
       = Some (ex_entry 7 60 (Some (cb_fail 0)))
   \<and> refreshWith (ex_entry 7 60 (Some (cb_fail 0))) = Some (cb_fail 0)
   \<and> IterCb (cache (ex_store (- 1)
         [(''a'', ex_entry 5 50 (Some (cb_ok 6))), (''b'', ex_entry 7 60 (Some (cb_fail 0)))]))
        [''a'']
        (Refresh_cb (ex_store (- 1)
         [(''a'', ex_entry 5 50 (Some (cb_ok 6))), (''b'', ex_entry 7 60 (Some (cb_fail 0)))]))
        (Map.empty, ex_env)
       = ([''a'' \<mapsto> ex_entry 6 110 (Some (cb_ok 6))], ex_env\<lparr>ticks := 1\<rparr>)
   \<and> cb_fail 0 (world (ex_env\<lparr>ticks := 1\<rparr>)) = ((0, Some (errors_New ''timeout'')), ())
   \<and> cache (fst (Refresh (ex_store (- 1)
         [(''a'', ex_entry 5 50 (Some (cb_ok 6))), (''b'', ex_entry 7 60 (Some (cb_fail 0)))])
         ([''a''] @ ''b'' # []) [''a''] ex_env)) ''b''
       = Some (ex_entry 7 60 (Some (cb_fail 0)))"
proof -
  let ?s = "ex_store (- 1)
       [(''a'', ex_entry 5 50 (Some (cb_ok 6))), (''b'', ex_entry 7 60 (Some (cb_fail 0)))]"
  have h1: "iter_order (cache ?s) ([''a''] @ ''b'' # [])"
    by (auto simp: iter_order_def ex_store_def)
  have h2: "cache ?s ''b'' = Some (ex_entry 7 60 (Some (cb_fail 0)))"
    by (simp add: ex_store_def)
  have h3: "refreshWith (ex_entry 7 60 (Some (cb_fail 0))) = Some (cb_fail 0)"
    by (simp add: ex_entry_def)
  have h4: "IterCb (cache ?s) [''a''] (Refresh_cb ?s) (Map.empty, ex_env)
       = ([''a'' \<mapsto> ex_entry 6 110 (Some (cb_ok 6))], ex_env\<lparr>ticks := 1\<rparr>)"
    by (simp add: ex_store_def ex_entry_def ex_env_def NewConfigCache_def cb_ok_def
        getExpiryTime_def now_def Add_def running_clock_def)
  have h5: "cb_fail 0 (world (ex_env\<lparr>ticks := 1\<rparr>)) = ((0, Some (errors_New ''timeout'')), ())"
    by (simp add: cb_fail_def)
  from Refresh_callback_error [OF h1 h2 h3 h4 h5, of "[''a'']"] h1 h2 h3 h4 h5
  show ?thesis by (simp only: simp_thms)
qed

text \<open>
  What \<open>Refresh\<close> does with a callback that succeeds depends on the capacity check of
  \<open>Set\<close>. In a store with room the entry is replaced: the new payload, the expiry
  \<open>now() + ttl\<close> from the reading taken right after the callback (when that sum is not
  the zero time, which \<open>Set\<close> would replace once more), the old callback. In a full store
  \<open>Set\<close> refuses every replacement, \<open>Refresh\<close> drops the error, and the store is as
  before.
\<close>

lemma Refresh_set_unvisited:
  assumes "key \<notin> set ks"
  shows "cache (fst (IterCb items ks Refresh_set s)) key = cache (fst s) key"
proof (rule IterCb_unvisited [where g = "\<lambda>s. cache (fst s) key"])
  fix k v and s :: "('a, 'b) ConfigCache \<times> 'b env"
  assume "k \<in> set ks"
  with assms have ne: "k \<noteq> key" by auto
  obtain scp1 e1 where s: "s = (scp1, e1)" by (cases s)
  from Set_other [OF ne, of scp1 v e1] s
  show "cache (fst (Refresh_set k v s)) key = cache (fst s) key" by simp
qed

lemma Refresh_set_limit:
  "limit (fst (IterCb items ks Refresh_set s)) = limit (fst s)"
proof (rule IterCb_unvisited [where g = "\<lambda>s. limit (fst s)"])
  fix k v and s :: "('a, 'b) ConfigCache \<times> 'b env"
  obtain scp1 e1 where s: "s = (scp1, e1)" by (cases s)
  then show "limit (fst (Refresh_set k v s)) = limit (fst s)" by (simp add: Set_limit)
qed

lemma Refresh_callback_success_room:
  fixes scp :: "('a::zero, 'w) ConfigCache"
  assumes ord: "iter_order (cache scp) (pre @ key # post)"
      and item: "cache scp key = Some item"
      and cb: "refreshWith item = Some cb"
      and before: "IterCb (cache scp) pre (Refresh_cb scp) (Map.empty, e) = (items0, e0)"
      and ok: "cb (world e0) = ((v2, None), w')"
      and room: "limit scp < 0 \<or> Count (cache scp) < limit scp"
      and ord': "iter_order
          (fst (IterCb (cache scp) (pre @ key # post) (Refresh_cb scp) (Map.empty, e))) ks'"
      and nz: "\<not> IsZero (Add (clock e0 (ticks e0)) (ttl scp))"
  shows "Get (fst (Refresh scp (pre @ key # post) ks' e)) key =
      (\<lparr>Item = v2, expires = Add (clock e0 (ticks e0)) (ttl scp), refreshWith = Some cb\<rparr>, True)"
proof -
  let ?val = "\<lparr>Item = v2, expires = Add (clock e0 (ticks e0)) (ttl scp), refreshWith = Some cb\<rparr>"
  let ?e0 = "e0\<lparr>world := w', ticks := Suc (ticks e0)\<rparr>"
  from ord have npost: "key \<notin> set post" by (simp add: iter_order_def)
  obtain items e1 where
    it: "IterCb (cache scp) (pre @ key # post) (Refresh_cb scp) (Map.empty, e) = (items, e1)"
    by (cases "IterCb (cache scp) (pre @ key # post) (Refresh_cb scp) (Map.empty, e)")
  have "IterCb (cache scp) (pre @ key # post) (Refresh_cb scp) (Map.empty, e) =
      IterCb (cache scp) post (Refresh_cb scp) (items0(key \<mapsto> ?val), ?e0)"
    by (simp add: IterCb_append before item Refresh_cb_success [OF cb ok] del: Refresh_cb.simps)
  moreover have "fst (IterCb (cache scp) post (Refresh_cb scp) (items0(key \<mapsto> ?val), ?e0)) key =
      fst (items0(key \<mapsto> ?val), ?e0) key"
    by (rule IterCb_unvisited [where g = "\<lambda>s. fst s key"], rule Refresh_cb_other) (use npost in auto)
  ultimately have
    "fst (IterCb (cache scp) (pre @ key # post) (Refresh_cb scp) (Map.empty, e)) key = Some ?val"
    by simp
  then have ikey: "items key = Some ?val" by (simp add: it)
  from Refresh_items_dom [of scp "pre @ key # post" e] it
  have sub: "dom items \<subseteq> dom (cache scp)" by simp
  from ord' it have dist: "distinct ks'" and "set ks' = dom items"
    by (simp_all add: iter_order_def)
  with ikey have "key \<in> set ks'" by auto
  then obtain xs ys where ks': "ks' = xs @ key # ys" by (auto dest: split_list)
  with dist have nys: "key \<notin> set ys" by simp
  obtain scp1 e2 where s1: "IterCb items xs Refresh_set (scp, e1) = (scp1, e2)"
    by (cases "IterCb items xs Refresh_set (scp, e1)")
  from Refresh_set_dom [OF sub, of xs e1] s1 have "dom (cache scp1) = dom (cache scp)" by simp
  then have cnt: "Count (cache scp1) = Count (cache scp)" by (simp add: Count_def)
  from Refresh_set_limit [of items xs "(scp, e1)"] s1 have "limit scp1 = limit scp" by simp
  with cnt room have room1: "limit scp1 < 0 \<or> Count (cache scp1) < limit scp1" by simp
  from nz have "\<not> IsZero (expires ?val)" by simp
  with Set_ok [OF room1, of key ?val e2]
  have set1: "Set scp1 key ?val e2 = (None, scp1\<lparr>cache := (cache scp1)(key \<mapsto> ?val)\<rparr>, e2)"
    by simp
  have "Refresh scp (pre @ key # post) ks' e = IterCb items ks' Refresh_set (scp, e1)"
    by (simp add: Refresh_def it)
  also have "\<dots> = IterCb items ys Refresh_set (Refresh_set key ?val (scp1, e2))"
    by (simp add: ks' IterCb_append s1 ikey del: Refresh_set.simps)
  also have "\<dots> = IterCb items ys Refresh_set
      (scp1\<lparr>cache := (cache scp1)(key \<mapsto> ?val)\<rparr>, e2)"
    by (simp add: set1)
  finally have "Refresh scp (pre @ key # post) ks' e =
      IterCb items ys Refresh_set (scp1\<lparr>cache := (cache scp1)(key \<mapsto> ?val)\<rparr>, e2)" .
  with Refresh_set_unvisited [OF nys, of items "(scp1\<lparr>cache := (cache scp1)(key \<mapsto> ?val)\<rparr>, e2)"]
  have "cache (fst (Refresh scp (pre @ key # post) ks' e)) key = Some ?val" by simp
  then show ?thesis by (simp add: Get_def)
qed

lemma Refresh_full_store:
  assumes "0 \<le> limit scp" and "limit scp \<le> Count (cache scp)"
  shows "fst (Refresh scp ks ks' e) = scp"
proof -
  obtain items e1 where it: "IterCb (cache scp) ks (Refresh_cb scp) (Map.empty, e) = (items, e1)"
    by (cases "IterCb (cache scp) ks (Refresh_cb scp) (Map.empty, e)")
  have "fst (IterCb items ks' Refresh_set (scp, e1)) = scp"
  proof (rule IterCb_invariant [where P = "\<lambda>s. fst s = scp"])
    show "fst (scp, e1) = scp" by simp
  next
    fix k v and s :: "('a, 'b) ConfigCache \<times> 'b env"
    assume "fst s = scp"
    then obtain e2 where "s = (scp, e2)" by (cases s) simp
    with Set_full [OF assms, of k v e2] show "fst (Refresh_set k v s) = scp" by simp
  qed
  with it show ?thesis by (simp add: Refresh_def)
qed

text \<open>
  C2 at a full store: the store holds one entry under the limit 1, and the callback of
  the entry returns the payload 6 and no error. After \<open>Refresh\<close>, \<open>Get\<close> still returns the
  old entry, with the payload 5 and the expiry 50.
\<close>

theorem Refresh_at_capacity_keeps_old_entry:
  "limit (ex_store 1 [(''a'', ex_entry 5 50 (Some (cb_ok 6)))]) = 1
   \<and> cache (ex_store 1 [(''a'', ex_entry 5 50 (Some (cb_ok 6)))]) ''a''
       = Some (ex_entry 5 50 (Some (cb_ok 6)))
   \<and> cb_ok 6 (world ex_env) = ((6, None), ())
   \<and> Get (fst (Refresh (ex_store 1 [(''a'', ex_entry 5 50 (Some (cb_ok 6)))])
                [''a''] [''a''] ex_env)) ''a''
       = (ex_entry 5 50 (Some (cb_ok 6)), True)"
  by (simp add: Refresh_def Get_def Set_def ex_store_def ex_entry_def ex_env_def
        NewConfigCache_def Count_def IsZero_def getExpiryTime_def now_def Add_def
        running_clock_def cb_ok_def)

section \<open>The zero time as an expiry\<close>

lemma Set_no_zero_expires:
  assumes "no_zero_expires scp" and "\<not> IsZero (Add (clock e (ticks e)) (ttl scp))"
  shows "no_zero_expires (fst (snd (Set scp k v e)))"
proof (cases "limit scp < 0 \<or> Count (cache scp) < limit scp")
  case True
  with assms show ?thesis
    by (auto simp: Set_ok no_zero_expires_def)
next
  case False
  with assms(1) show ?thesis by (simp add: Set_full)
qed

lemma Delete_all_no_zero_expires:
  "no_zero_expires scp \<Longrightarrow> no_zero_expires (Delete_all scp ks)"
  by (auto simp: Delete_all_cache no_zero_expires_def split: if_splits)

lemma FlushExpired_cb_clock: "clock (snd (FlushExpired_cb k v s)) = clock (snd s)"
  by (cases s) (simp add: isExpired_def now_def)

lemma Refresh_cb_clock: "clock (snd (Refresh_cb scp k v s)) = clock (snd s)"
  by (cases s) (simp add: getExpiryTime_def now_def split: option.splits prod.splits)

lemma FlushExpired_preserves:
  assumes "no_zero_expires scp"
  shows "no_zero_expires (fst (FlushExpired scp ks e))"
    and "ttl (fst (FlushExpired scp ks e)) = ttl scp"
    and "clock (snd (FlushExpired scp ks e)) = clock e"
proof -
  obtain fd e1 where it: "IterCb (cache scp) ks FlushExpired_cb ([], e) = (fd, e1)"
    by (cases "IterCb (cache scp) ks FlushExpired_cb ([], e)")
  have "clock (snd (IterCb (cache scp) ks FlushExpired_cb ([], e))) = clock e"
    by (rule IterCb_invariant [where P = "\<lambda>s. clock (snd s) = clock e"])
       (simp_all add: FlushExpired_cb_clock del: FlushExpired_cb.simps)
  with it have c: "clock e1 = clock e" by simp
  from it assms show "no_zero_expires (fst (FlushExpired scp ks e))"
    by (simp add: FlushExpired_def Delete_all_no_zero_expires)
  from it show "ttl (fst (FlushExpired scp ks e)) = ttl scp"
    by (simp add: FlushExpired_def Delete_all_cache)
  from it c show "clock (snd (FlushExpired scp ks e)) = clock e"
    by (simp add: FlushExpired_def)
qed

lemma Refresh_preserves:
  assumes nz: "no_zero_expires scp" and clk: "\<forall>i. \<not> IsZero (Add (clock e i) (ttl scp))"
  shows "no_zero_expires (fst (Refresh scp ks ks' e))"
    and "ttl (fst (Refresh scp ks ks' e)) = ttl scp"
    and "clock (snd (Refresh scp ks ks' e)) = clock e"
proof -
  obtain items e1 where it: "IterCb (cache scp) ks (Refresh_cb scp) (Map.empty, e) = (items, e1)"
    by (cases "IterCb (cache scp) ks (Refresh_cb scp) (Map.empty, e)")
  have "clock (snd (IterCb (cache scp) ks (Refresh_cb scp) (Map.empty, e))) = clock e"
    by (rule IterCb_invariant [where P = "\<lambda>s. clock (snd s) = clock e"])
       (simp_all add: Refresh_cb_clock del: Refresh_cb.simps)
  with it have c: "clock e1 = clock e" by simp
  let ?P = "\<lambda>s. no_zero_expires (fst s) \<and> ttl (fst s) = ttl scp \<and> clock (snd s) = clock e"
  have "?P (IterCb items ks' Refresh_set (scp, e1))"
  proof (rule IterCb_invariant [where P = ?P])
    from nz c show "?P (scp, e1)" by simp
  next
    fix k v and s :: "('a, 'b) ConfigCache \<times> 'b env"
    assume inv: "?P s"
    obtain scp2 e2 where s: "s = (scp2, e2)" by (cases s)
    from inv s clk have "\<not> IsZero (Add (clock e2 (ticks e2)) (ttl scp2))" by simp
    with inv s Set_no_zero_expires [of scp2 e2 k v]
    have "no_zero_expires (fst (snd (Set scp2 k v e2)))" by simp
    with inv s show "?P (Refresh_set k v s)"
      by (simp add: Set_ttl Set_clock)
  qed
  with it show "no_zero_expires (fst (Refresh scp ks ks' e))"
    and "ttl (fst (Refresh scp ks ks' e)) = ttl scp"
    and "clock (snd (Refresh scp ks ks' e)) = clock e"
    by (simp_all add: Refresh_def)
qed

lemma run_call_preserves:
  assumes nz: "no_zero_expires scp" and clk: "\<forall>i. \<not> IsZero (Add (clock e i) (ttl scp))"
  shows "no_zero_expires (fst (run_call scp c e))
    \<and> ttl (fst (run_call scp c e)) = ttl scp
    \<and> clock (snd (run_call scp c e)) = clock e"
proof (cases c)
  case (CallSet k v)
  from clk have "\<not> IsZero (Add (clock e (ticks e)) (ttl scp))" by simp
  with nz CallSet show ?thesis
    by (simp add: Set_no_zero_expires Set_ttl Set_clock)
next
  case (CallDelete k)
  with nz show ?thesis by (auto simp: Delete_def no_zero_expires_def split: if_splits)
next
  case (CallFlushExpired ks)
  with FlushExpired_preserves [OF nz] show ?thesis by simp
next
  case (CallRefresh ks ks')
  with Refresh_preserves [OF nz clk] show ?thesis by simp
qed

lemma run_calls_no_zero_expires:
  "no_zero_expires scp \<Longrightarrow> \<forall>i. \<not> IsZero (Add (clock e i) (ttl scp)) \<Longrightarrow>
   no_zero_expires (fst (run_calls scp cs e))"
proof (induction cs arbitrary: scp e)
  case Nil
  then show ?case by simp
next
  case (Cons c cs)
  obtain scp1 e1 where r: "run_call scp c e = (scp1, e1)" by (cases "run_call scp c e")
  from run_call_preserves [OF Cons.prems, of c] r
  have "no_zero_expires scp1" "ttl scp1 = ttl scp" "clock e1 = clock e" by simp_all
  with Cons.prems(2) have "no_zero_expires scp1" "\<forall>i. \<not> IsZero (Add (clock e1 i) (ttl scp1))"
    by simp_all
  from Cons.IH [OF this] r show ?case by simp
qed

lemma wall_clock_never_zero:
  assumes "wall_clock c" and "is_Duration t"
  shows "\<not> IsZero (Add (c i) t)"
proof -
  from assms(1) have "2 ^ 63 < c i" by (simp add: wall_clock_def)
  moreover from assms(2) have "- (2 ^ 63) \<le> t" by (simp add: is_Duration_def)
  ultimately have "0 < c i + t" by linarith
  then show ?thesis by (simp add: IsZero_def Add_def)
qed

text \<open>
  C9: a value whose \<open>expires\<close> is the zero time (set through \<open>SetExpiry\<close> or never set) is
  stored by \<open>Set\<close> under \<open>now() + ttl\<close>, as if no expiry had been given. Consequently no
  entry of the store ever has a zero \<open>expires\<close>: under the system clock and a TTL that is a
  \<open>time.Duration\<close>, every entry of every store reached from a new one by \<open>Set\<close>,
  \<open>Delete\<close>, \<open>FlushExpired\<close> and \<open>Refresh\<close> has an expiry that is not the zero time.
\<close>

theorem zero_expiry_replaced:
  fixes scp :: "('a, 'w) ConfigCache" and cs :: "('a, 'w) call list"
  shows "(IsZero (expires v) \<and> Set scp k v e = (None, scp', e') \<longrightarrow>
      cache scp' k = Some (v\<lparr>expires := Add (fst (now e)) (ttl scp)\<rparr>))
   \<and> (wall_clock (clock e) \<and> is_Duration t
        \<and> cache (fst (run_calls (NewConfigCache t l) cs e)) k' = Some v' \<longrightarrow>
      \<not> IsZero (expires v'))"
proof (rule conjI; rule impI)
  assume a: "IsZero (expires v) \<and> Set scp k v e = (None, scp', e')"
  then have "fst (Set scp k v e) = None" by simp
  then have "limit scp < 0 \<or> Count (cache scp) < limit scp" by (simp only: Set_None_iff)
  from Set_ok [OF this, of k v e] a
  show "cache scp' k = Some (v\<lparr>expires := Add (fst (now e)) (ttl scp)\<rparr>)"
    by (auto simp: now_def)
next
  let ?c = "NewConfigCache t l :: ('a, 'w) ConfigCache"
  assume a: "wall_clock (clock e) \<and> is_Duration t
        \<and> cache (fst (run_calls ?c cs e)) k' = Some v'"
  have "no_zero_expires ?c"
    by (simp add: no_zero_expires_def NewConfigCache_def)
  moreover from a have "\<forall>i. \<not> IsZero (Add (clock e i) (ttl ?c))"
    by (simp add: NewConfigCache_def wall_clock_never_zero)
  ultimately have "no_zero_expires (fst (run_calls ?c cs e))"
    by (rule run_calls_no_zero_expires)
  with a show "\<not> IsZero (expires v')"
    unfolding no_zero_expires_def by blast
qed

text \<open>
  \<open>SetExpiry\<close> puts the zero time into a value; \<open>Set\<close> stores the value under the reading
  of the clock plus the TTL of 10. After that \<open>Set\<close> and a \<open>Refresh\<close> under a clock of
  the present, the entry expires 10 nanoseconds after the second reading.
\<close>

theorem zero_expiry_replaced_witness:
  "IsZero (expires (SetExpiry (ex_entry 5 77 None) 0))
   \<and> Set (ex_store 2 []) ''a'' (SetExpiry (ex_entry 5 77 None) 0) ex_wall_env =
       (None, ex_store 2 [(''a'', ex_entry 5 63900000000000000010 None)],
        ex_wall_env\<lparr>ticks := 1\<rparr>)
   \<and> cache (ex_store 2 [(''a'', ex_entry 5 63900000000000000010 None)]) ''a''
       = Some (ex_entry 5 63900000000000000010 None)
   \<and> wall_clock (clock ex_wall_env) \<and> is_Duration 10
   \<and> cache (fst (run_calls (NewConfigCache 10 (- 1))
        [CallSet ''a'' (SetExpiry (ex_entry 5 77 (Some (cb_ok 6))) 0),
         CallRefresh [''a''] [''a'']] ex_wall_env)) ''a''
       = Some (ex_entry 6 63900000000000000011 (Some (cb_ok 6)))
   \<and> \<not> IsZero (expires (ex_entry 6 63900000000000000011 (Some (cb_ok 6))))"
proof -
  have h1: "IsZero (expires (SetExpiry (ex_entry 5 77 None) 0))
      \<and> Set (ex_store 2 []) ''a'' (SetExpiry (ex_entry 5 77 None) 0) ex_wall_env =
       (None, ex_store 2 [(''a'', ex_entry 5 63900000000000000010 None)],
        ex_wall_env\<lparr>ticks := 1\<rparr>)"
    by (simp add: Set_def SetExpiry_def ex_store_def ex_entry_def ex_wall_env_def
        NewConfigCache_def Count_def IsZero_def getExpiryTime_def now_def Add_def
        running_clock_def)
  have h2: "wall_clock (clock ex_wall_env) \<and> is_Duration 10
      \<and> cache (fst (run_calls (NewConfigCache 10 (- 1))
        [CallSet ''a'' (SetExpiry (ex_entry 5 77 (Some (cb_ok 6))) 0),
         CallRefresh [''a''] [''a'']] ex_wall_env)) ''a''
       = Some (ex_entry 6 63900000000000000011 (Some (cb_ok 6)))"
    by (simp add: Refresh_def Set_def SetExpiry_def ex_entry_def ex_wall_env_def
        NewConfigCache_def Count_def IsZero_def getExpiryTime_def now_def Add_def
        running_clock_def cb_ok_def wall_clock_def is_Duration_def)
  from zero_expiry_replaced [THEN conjunct1, rule_format, OF h1]
  have c1: "cache (ex_store 2 [(''a'', ex_entry 5 63900000000000000010 None)]) ''a''
      = Some (ex_entry 5 63900000000000000010 None)"
    by (simp add: SetExpiry_def ex_entry_def ex_wall_env_def now_def Add_def running_clock_def
        ex_store_def NewConfigCache_def)
  from zero_expiry_replaced [THEN conjunct2, rule_format, OF h2]
  have c2: "\<not> IsZero (expires (ex_entry 6 63900000000000000011 (Some (cb_ok 6))))" .
  from h1 h2 c1 c2 show ?thesis by (simp only: simp_thms)
qed

section \<open>The start guard of the refresh worker\<close>

text \<open>
  C7: \<open>RunRefreshWorker\<close> moves the flag \<open>refreshWorkerRunning\<close> from 0 (stopped) to 1
  (running) through one compare-and-swap, and launches one goroutine. A call that finds
  the flag set returns an error, launches nothing and leaves the cache, the flag, the stop
  channel and the goroutines as they were; so does the second of two calls in a row.
\<close>

theorem RunRefreshWorker_guard:
  "(refreshWorkerRunning scp = 0 \<and> 0 < d \<longrightarrow>
      RunRefreshWorker scp d st gs =
        (Returned None, scp\<lparr>refreshWorkerRunning := 1, stopRefreshWorker := st\<rparr>,
         gs @ [\<lparr>interval = d, stop = st\<rparr>])
      \<and> RunRefreshWorker (scp\<lparr>refreshWorkerRunning := 1, stopRefreshWorker := st\<rparr>) d' st'
            (gs @ [\<lparr>interval = d, stop = st\<rparr>]) =
        (Returned (Some already_started),
         scp\<lparr>refreshWorkerRunning := 1, stopRefreshWorker := st\<rparr>,
         gs @ [\<lparr>interval = d, stop = st\<rparr>]))
   \<and> (refreshWorkerRunning scp \<noteq> 0 \<longrightarrow>
      RunRefreshWorker scp d st gs = (Returned (Some already_started), scp, gs))"
  by (simp add: RunRefreshWorker_def CompareAndSwapInt32_def)

text \<open>
  A new cache starts its worker with an interval of 5; a second start, with another
  interval and another stop channel, is refused and changes nothing.
\<close>

theorem RunRefreshWorker_guard_witness:
  "refreshWorkerRunning (ex_store 1 []) = 0 \<and> (0::int) < 5
   \<and> RunRefreshWorker (ex_store 1 []) 5 (Some 1) [] =
       (Returned None, (ex_store 1 [])\<lparr>refreshWorkerRunning := 1, stopRefreshWorker := Some 1\<rparr>,
        [\<lparr>interval = 5, stop = Some 1\<rparr>])
   \<and> refreshWorkerRunning
        ((ex_store 1 [])\<lparr>refreshWorkerRunning := 1, stopRefreshWorker := Some 1\<rparr>) \<noteq> 0
   \<and> RunRefreshWorker ((ex_store 1 [])\<lparr>refreshWorkerRunning := 1, stopRefreshWorker := Some 1\<rparr>)
        7 (Some 2) [\<lparr>interval = 5, stop = Some 1\<rparr>] =
       (Returned (Some already_started),
        (ex_store 1 [])\<lparr>refreshWorkerRunning := 1, stopRefreshWorker := Some 1\<rparr>,
        [\<lparr>interval = 5, stop = Some 1\<rparr>])"
proof -
  have h: "refreshWorkerRunning (ex_store 1 []) = 0 \<and> (0::int) < 5"
    by (simp add: ex_store_def NewConfigCache_def)
  from h RunRefreshWorker_guard [of "ex_store 1 []" 5 "Some 1" "[]" 7 "Some 2"]
  show ?thesis by simp
qed

end
